theory Spec2Isabelle
  imports Main "HOL-Library.Word"
begin

section \<open>Text\<close>

text \<open>
  The program reads its input as byte slices and hands them to \<^verbatim>\<open>regexp\<close> and to
  \<^verbatim>\<open>bytes.Map\<close>, which both walk a slice rune by rune. A slice is modelled by that
  sequence of runes (a byte that is not valid UTF-8 counts as the rune the decoder reports
  for it); a rune is Go's \<^verbatim>\<open>int32\<close>. File names are plain strings.
\<close>

type_synonym rune = "32 word"
type_synonym gostr = "rune list"

definition runes :: "string \<Rightarrow> gostr" where
  "runes s = map of_char s"

subsection \<open>Case folding (\<^verbatim>\<open>letterDiff\<close>, \<^verbatim>\<open>toLower\<close>)\<close>

definition letterDiff :: rune where
  "letterDiff = 0x41 - 0x61"

definition toLower :: "rune \<Rightarrow> rune" where
  "toLower r = (if 0x41 \<le>s r \<and> r \<le>s 0x5A then r - letterDiff else r)"

text \<open>
  \<^verbatim>\<open>bytes.Map\<close> applies the mapping to every rune and drops a rune whose image is
  negative.
\<close>

definition bytes_Map :: "(rune \<Rightarrow> rune) \<Rightarrow> gostr \<Rightarrow> gostr" where
  "bytes_Map mapping s = filter (\<lambda>r. 0 \<le>s r) (map mapping s)"

section \<open>The extraction pattern\<close>

text \<open>
  The pattern \<^verbatim>\<open>.+ <= (?P<from>\S+) .+ for (?P<to>\S+)\<close> is a sequence of single
  characters, greedy repetitions of a character class and capture brackets. \<^verbatim>\<open>.\<close> is any
  rune but the newline, \<^verbatim>\<open>\S\<close> any rune outside \<^verbatim>\<open>[\t\n\f\r ]\<close>.
\<close>

datatype atom = Lit rune | AnyCharNotNL | NotSpace

fun atom_ok :: "atom \<Rightarrow> rune \<Rightarrow> bool" where
  "atom_ok (Lit a) c = (c = a)"
| "atom_ok AnyCharNotNL c = (c \<noteq> 0x0A)"
| "atom_ok NotSpace c = (c \<noteq> 0x09 \<and> c \<noteq> 0x0A \<and> c \<noteq> 0x0C \<and> c \<noteq> 0x0D \<and> c \<noteq> 0x20)"

datatype inst = One atom | Plus atom | CapOpen nat | CapClose nat

definition lits :: "string \<Rightarrow> inst list" where
  "lits s = map (\<lambda>c. One (Lit (of_char c))) s"

definition lineMatch :: "inst list" where
  "lineMatch =
     [Plus AnyCharNotNL] @ lits '' <= '' @
     [CapOpen 1, Plus NotSpace, CapClose 1] @ lits '' '' @
     [Plus AnyCharNotNL] @ lits '' for '' @
     [CapOpen 2, Plus NotSpace, CapClose 2]"

text \<open>
  \<^verbatim>\<open>regexp\<close> returns the match that begins leftmost and that a backtracking search finds
  first. \<open>run\<close> is that search from one start: a greedy repetition first tries to take
  one more rune and falls back to the rest of the pattern. A capture register holds the
  input that was left when the bracket opened and when it closed.
\<close>

type_synonym caps = "nat \<Rightarrow> (gostr \<times> gostr) option"

fun run :: "inst list \<Rightarrow> gostr \<Rightarrow> caps \<Rightarrow> (caps \<times> gostr) option" where
  "run [] s cs = Some (cs, s)"
| "run (One a # p) [] cs = None"
| "run (One a # p) (c # s) cs = (if atom_ok a c then run p s cs else None)"
| "run (Plus a # p) [] cs = None"
| "run (Plus a # p) (c # s) cs =
     (if atom_ok a c
      then (case run (Plus a # p) s cs of Some r \<Rightarrow> Some r | None \<Rightarrow> run p s cs)
      else None)"
| "run (CapOpen n # p) s cs = run p s (cs(n \<mapsto> (s, s)))"
| "run (CapClose n # p) s cs =
     run p s (cs(n := map_option (\<lambda>(b, _). (b, s)) (cs n)))"

fun search :: "inst list \<Rightarrow> gostr \<Rightarrow> (gostr \<times> caps \<times> gostr) option" where
  "search p s =
     (case run p s Map.empty of
        Some (cs, rest) \<Rightarrow> Some (s, cs, rest)
      | None \<Rightarrow> (case s of [] \<Rightarrow> None | c # s' \<Rightarrow> search p s'))"

definition between :: "gostr \<Rightarrow> gostr \<Rightarrow> gostr" where
  "between b e = take (length b - length e) b"

fun NumSubexp :: "inst list \<Rightarrow> nat" where
  "NumSubexp [] = 0"
| "NumSubexp (CapOpen n # p) = Suc (NumSubexp p)"
| "NumSubexp (i # p) = NumSubexp p"

definition submatch :: "caps \<Rightarrow> nat \<Rightarrow> gostr" where
  "submatch cs n = (case cs n of Some (b, e) \<Rightarrow> between b e | None \<Rightarrow> [])"

definition FindSubmatch :: "inst list \<Rightarrow> gostr \<Rightarrow> gostr list option" where
  "FindSubmatch p s =
     (case search p s of
        None \<Rightarrow> None
      | Some (start, cs, rest) \<Rightarrow>
          Some (between start rest # map (submatch cs) [1 ..< Suc (NumSubexp p)]))"

text \<open>\<^verbatim>\<open>Match\<close> and \<^verbatim>\<open>MatchString\<close> report whether the input contains a match.\<close>

definition Match :: "inst list \<Rightarrow> gostr \<Rightarrow> bool" where
  "Match p b \<longleftrightarrow> search p b \<noteq> None"

text \<open>The line parser of \<^verbatim>\<open>processFile\<close>: group 1 is \<^verbatim>\<open>from\<close>, group 2 is \<^verbatim>\<open>to\<close>.\<close>

definition LineParser :: "gostr \<Rightarrow> (gostr \<times> gostr) option" where
  "LineParser line =
     (case FindSubmatch lineMatch line of
        None \<Rightarrow> None
      | Some matches \<Rightarrow> Some (matches ! 1, matches ! 2))"

text \<open>
  The language of a pattern, for comparison with the search: the words it matches, and
  the inputs that contain such a word.
\<close>

fun lang :: "inst list \<Rightarrow> gostr set" where
  "lang [] = {[]}"
| "lang (One a # p) = {c # w | c w. atom_ok a c \<and> w \<in> lang p}"
| "lang (Plus a # p) = {u @ w | u w. u \<noteq> [] \<and> list_all (atom_ok a) u \<and> w \<in> lang p}"
| "lang (CapOpen n # p) = lang p"
| "lang (CapClose n # p) = lang p"

definition contains_match :: "inst list \<Rightarrow> gostr \<Rightarrow> bool" where
  "contains_match p s \<longleftrightarrow> (\<exists>pre w post. s = pre @ w @ post \<and> w \<in> lang p)"

definition is_space :: "rune \<Rightarrow> bool" where
  "is_space c \<longleftrightarrow> c = 0x09 \<or> c = 0x0A \<or> c = 0x0C \<or> c = 0x0D \<or> c = 0x20"

definition token :: "gostr \<Rightarrow> bool" where
  "token t \<longleftrightarrow> t \<noteq> [] \<and> list_all (\<lambda>c. \<not> is_space c) t"

section \<open>Program state\<close>

datatype log_event =
    CouldNotOpenFile string
  | CouldNotReadGzippedFile string
  | ReadingFile string int
  | CrunchingProgress "int list"
  | CouldNotReadFile string
  | FinishedReadingFile string

text \<open>
  The variables every variant of the program keeps, and the ones only the concurrent
  variant has. The inner maps only ever hold \<open>True\<close>; their domain is the set of
  correspondents. Counters are Go's \<^verbatim>\<open>int\<close>, one step per line read: they are
  modelled unbounded.
\<close>

record counters =
  emails :: "gostr \<rightharpoonup> (gostr \<rightharpoonup> bool)"
  lineCount :: int
  matchCount :: int
  ignoreCount :: int
  logLineCount :: int
  logged :: "log_event list"

record state = counters +
  fromCount :: int
  remainingFiles :: int

record config =
  emailRegex :: "gostr \<Rightarrow> bool"
  ignoreRegex :: "gostr \<Rightarrow> bool"
  logFrequency :: int

definition emit :: "log_event \<Rightarrow> 'a counters_scheme \<Rightarrow> 'a counters_scheme" where
  "emit e s = s\<lparr>logged := logged s @ [e]\<rparr>"

section \<open>The concurrent variant: \<^verbatim>\<open>processFile\<close>\<close>

text \<open>The critical section between \<^verbatim>\<open>writeLock.Lock()\<close> and \<^verbatim>\<open>Unlock()\<close>.\<close>

definition record_pair :: "gostr \<Rightarrow> gostr \<Rightarrow> state \<Rightarrow> state" where
  "record_pair fromAsString toAsString s =
     (case emails s fromAsString of
        Some val \<Rightarrow> s\<lparr>emails := (emails s)(fromAsString \<mapsto> val(toAsString \<mapsto> True))\<rparr>
      | None \<Rightarrow>
          (s\<lparr>fromCount := fromCount s + 1\<rparr>)
            \<lparr>emails := (emails s)(fromAsString \<mapsto> [toAsString \<mapsto> True])\<rparr>)"

text \<open>
  The loop body after a successful read. Both \<^verbatim>\<open>continue\<close> statements skip the
  updates of \<^verbatim>\<open>lineCount\<close> and \<^verbatim>\<open>logLineCount\<close> at the end of the body.
\<close>

definition handleLine :: "config \<Rightarrow> gostr \<Rightarrow> state \<Rightarrow> state" where
  "handleLine cfg line s =
     (case FindSubmatch lineMatch line of
        Some matches \<Rightarrow>
          (let from = matches ! 1 in
           if \<not> emailRegex cfg from then s\<lparr>ignoreCount := ignoreCount s + 1\<rparr>
           else
             let to = matches ! 2 in
             if ignoreRegex cfg to then s\<lparr>ignoreCount := ignoreCount s + 1\<rparr>
             else
               let fromAsString = bytes_Map toLower from;
                   toAsString = bytes_Map toLower to;
                   s1 = record_pair fromAsString toAsString s;
                   s2 = s1\<lparr>matchCount := matchCount s1 + 1\<rparr>
               in s2\<lparr>lineCount := lineCount s2 + 1, logLineCount := logLineCount s2 - 1\<rparr>)
      | None \<Rightarrow> s\<lparr>lineCount := lineCount s + 1, logLineCount := logLineCount s - 1\<rparr>)"

definition progress :: "config \<Rightarrow> state \<Rightarrow> state" where
  "progress cfg s =
     (if logLineCount s \<le> 0
      then emit (CrunchingProgress [lineCount s, matchCount s, ignoreCount s, fromCount s])
             (s\<lparr>logLineCount := logFrequency cfg\<rparr>)
      else s)"

subsection \<open>Readers\<close>

text \<open>
  A reader is the bytes it will still deliver and the error that ends them: \<^verbatim>\<open>io.EOF\<close>
  or a read failure. \<^verbatim>\<open>ReadBytes\<close> returns the bytes up to and including the
  delimiter, or what is left together with the error.
\<close>

datatype io_error = EOF | ReadFailure

record reader =
  pending :: gostr
  ending :: io_error

definition ReadBytes :: "rune \<Rightarrow> reader \<Rightarrow> gostr \<times> io_error option \<times> reader" where
  "ReadBytes delim rd =
     (case dropWhile (\<lambda>c. c \<noteq> delim) (pending rd) of
        [] \<Rightarrow> (pending rd, Some (ending rd), rd\<lparr>pending := []\<rparr>)
      | d # rest \<Rightarrow>
          (takeWhile (\<lambda>c. c \<noteq> delim) (pending rd) @ [d], None, rd\<lparr>pending := rest\<rparr>))"

text \<open>
  The files and the decompressor. \<^verbatim>\<open>os.Open\<close> gives no file when it fails, and every
  read from the nil file fails. \<^verbatim>\<open>gzip.NewReader\<close> gives no reader when the header is
  bad.
\<close>

record world =
  os_Open :: "string \<Rightarrow> reader option"
  gzip_NewReader :: "reader \<Rightarrow> reader option"

definition file_reader :: "reader option \<Rightarrow> reader" where
  "file_reader inFile =
     (case inFile of Some rd \<Rightarrow> rd | None \<Rightarrow> \<lparr>pending = [], ending = ReadFailure\<rparr>)"

fun ext_scan :: "string \<Rightarrow> string \<Rightarrow> string" where
  "ext_scan [] suffix = []"
| "ext_scan (c # before) suffix =
     (if c = CHR ''/'' then []
      else if c = CHR ''.'' then c # suffix
      else ext_scan before (c # suffix))"

definition filepath_Ext :: "string \<Rightarrow> string" where
  "filepath_Ext path = ext_scan (rev path) []"

subsection \<open>The worker\<close>

text \<open>
  The read loop of \<^verbatim>\<open>processFile\<close>. At \<^verbatim>\<open>io.EOF\<close> it leaves the loop and the function
  finishes normally; at any other error it logs and returns at once.
\<close>

function readLoop :: "config \<Rightarrow> string \<Rightarrow> reader \<Rightarrow> state \<Rightarrow> state" where
  "readLoop cfg fileName rd s =
     (let s1 = progress cfg s;
          line = fst (ReadBytes 0x0A rd);
          err = fst (snd (ReadBytes 0x0A rd));
          rd' = snd (snd (ReadBytes 0x0A rd))
      in if err = Some EOF then
           emit (FinishedReadingFile fileName) (s1\<lparr>remainingFiles := remainingFiles s1 - 1\<rparr>)
         else if err \<noteq> None then emit (CouldNotReadFile fileName) s1
         else readLoop cfg fileName rd' (handleLine cfg line s1))"
  by pat_completeness auto
termination
proof (relation "measure (\<lambda>(cfg, fileName, rd, s). length (pending rd))")
  show "wf (measure (\<lambda>(cfg, fileName, rd, s). length (pending rd)))"
    by simp
next
  fix cfg :: config and fileName :: string and rd :: reader and s :: state
  fix s1 line err rd'
  assume rd': "rd' = snd (snd (ReadBytes 0x0A rd))"
    and err: "err = fst (snd (ReadBytes 0x0A rd))" "\<not> err \<noteq> None"
  then obtain d rest where dr: "dropWhile (\<lambda>c. c \<noteq> 0x0A) (pending rd) = d # rest"
    by (cases "dropWhile (\<lambda>c. c \<noteq> 0x0A) (pending rd)") (auto simp: ReadBytes_def)
  have "length (dropWhile (\<lambda>c. c \<noteq> 0x0A) (pending rd)) \<le> length (pending rd)"
    by (rule length_dropWhile_le)
  with dr rd' have "length (pending rd') < length (pending rd)"
    by (simp add: ReadBytes_def)
  then show "((cfg, fileName, rd', handleLine cfg line s1), cfg, fileName, rd, s)
      \<in> measure (\<lambda>(cfg, fileName, rd, s). length (pending rd))"
    by simp
qed

declare readLoop.simps [simp del]

text \<open>
  What \<^verbatim>\<open>processFile\<close> leaves behind: it returns, or the goroutine panics, which ends
  the process. After a failed \<^verbatim>\<open>gzip.NewReader\<close> the function goes on with the nil
  \<^verbatim>\<open>*gzip.Reader\<close>, and the first read through it dereferences nil.
\<close>

datatype outcome = Returned state | Panicked state

definition processFile :: "config \<Rightarrow> world \<Rightarrow> string \<Rightarrow> state \<Rightarrow> outcome" where
  "processFile cfg w fileName s =
     (let inFile = os_Open w fileName;
          s1 = (if inFile = None then emit (CouldNotOpenFile fileName) s else s)
      in if filepath_Ext fileName = ''.gz'' then
           (case gzip_NewReader w (file_reader inFile) of
              None \<Rightarrow>
                Panicked (progress cfg
                  (emit (ReadingFile fileName (remainingFiles s1))
                     (emit (CouldNotReadGzippedFile fileName) s1)))
            | Some gzReader \<Rightarrow>
                Returned (readLoop cfg fileName gzReader
                  (emit (ReadingFile fileName (remainingFiles s1)) s1)))
         else
           Returned (readLoop cfg fileName (file_reader inFile)
             (emit (ReadingFile fileName (remainingFiles s1)) s1)))"

text \<open>
  With \<^verbatim>\<open>-threads 1\<close> the semaphore admits one worker at a time, so \<^verbatim>\<open>main\<close> runs the
  files one after the other, in order.
\<close>

fun processFiles :: "config \<Rightarrow> world \<Rightarrow> string list \<Rightarrow> state \<Rightarrow> outcome" where
  "processFiles cfg w [] s = Returned s"
| "processFiles cfg w (fileName # fileNames) s =
     (case processFile cfg w fileName s of
        Panicked s' \<Rightarrow> Panicked s'
      | Returned s' \<Rightarrow> processFiles cfg w fileNames s')"

section \<open>The sequential variants: the loop of \<^verbatim>\<open>main\<close>\<close>

text \<open>
  \<^verbatim>\<open>val, ok := emails[k]; if ok { val[v] = true } else { emails[k] = map[string]bool{v: true} }\<close>
\<close>

definition record_entry :: "gostr \<Rightarrow> gostr \<Rightarrow> counters \<Rightarrow> counters" where
  "record_entry k v s =
     (case emails s k of
        Some val \<Rightarrow> s\<lparr>emails := (emails s)(k \<mapsto> val(v \<mapsto> True))\<rparr>
      | None \<Rightarrow> s\<lparr>emails := (emails s)(k \<mapsto> [v \<mapsto> True])\<rparr>)"

text \<open>
  The body of the read loop from \<^verbatim>\<open>FindStringSubmatch\<close> on, the same text in both
  sequential variants. The local \<^verbatim>\<open>to\<close> is bound to group 1 and \<^verbatim>\<open>from\<close> to group 2.
\<close>

definition main_line :: "(gostr \<Rightarrow> bool) \<Rightarrow> gostr \<Rightarrow> counters \<Rightarrow> counters" where
  "main_line email line s =
     (case FindSubmatch lineMatch line of
        Some matches \<Rightarrow>
          (let to = matches ! 1;
               from = matches ! 2;
               toIsMatch = email to;
               fromIsMatch = email from
           in if toIsMatch \<and> fromIsMatch then s\<lparr>ignoreCount := ignoreCount s + 1\<rparr>
              else
                let s1 = s\<lparr>matchCount := matchCount s + 1\<rparr>;
                    s2 = (if toIsMatch then record_entry to from s1 else record_entry from to s1)
                in s2\<lparr>lineCount := lineCount s2 + 1, logLineCount := logLineCount s2 - 1\<rparr>)
      | None \<Rightarrow> s\<lparr>lineCount := lineCount s + 1, logLineCount := logLineCount s - 1\<rparr>)"

text \<open>
  The read loop of \<^verbatim>\<open>main.go\<close>; \<^verbatim>\<open>ReadString\<close> reads as \<^verbatim>\<open>ReadBytes\<close> does. Only
  \<^verbatim>\<open>io.EOF\<close> leaves the loop: after any other error it logs, handles what was read as a
  line and reads again. The loop need not return, so its result is optional.
\<close>

partial_function (option) main_readLoop ::
  "(gostr \<Rightarrow> bool) \<Rightarrow> string \<Rightarrow> reader \<Rightarrow> counters \<Rightarrow> counters option" where
  "main_readLoop email fileName rd s =
     (let s1 = (if logLineCount s \<le> 0
                then emit (CrunchingProgress [lineCount s, matchCount s, ignoreCount s]) s
                else s);
          line = fst (ReadBytes 0x0A rd);
          err = fst (snd (ReadBytes 0x0A rd));
          rd' = snd (snd (ReadBytes 0x0A rd))
      in if err = Some EOF then Some s1
         else main_readLoop email fileName rd'
                (main_line email line
                   (if err \<noteq> None then emit (CouldNotReadFile fileName) s1 else s1)))"

section \<open>Notions used in the statements\<close>

text \<open>
  The package-level variables of the concurrent variant start as in its \<^verbatim>\<open>var\<close> block,
  the locals of \<^verbatim>\<open>main.go\<close> as before its first file, with the default of \<^verbatim>\<open>-log\<close>.
\<close>

definition initial_state :: state where
  "initial_state =
     \<lparr>emails = Map.empty, lineCount = 0, matchCount = 0, ignoreCount = 0, logLineCount = 1,
      logged = [], fromCount = 0, remainingFiles = 0\<rparr>"

definition initial_counters :: counters where
  "initial_counters =
     \<lparr>emails = Map.empty, lineCount = 0, matchCount = 0, ignoreCount = 0, logLineCount = 100,
      logged = []\<rparr>"

definition correspondents :: "'a counters_scheme \<Rightarrow> gostr \<Rightarrow> gostr set" where
  "correspondents s owner = (case emails s owner of Some val \<Rightarrow> dom val | None \<Rightarrow> {})"





definition unlogged :: "state \<Rightarrow> state" where
  "unlogged s = s\<lparr>logged := []\<rparr>"

text \<open>Flag values and files for the examples.\<close>

definition test_com :: "inst list" where
  "test_com = lits ''test'' @ [One AnyCharNotNL] @ lits ''com''"

definition example_config :: config where
  "example_config =
     \<lparr>emailRegex = Match (lits ''test.com''), ignoreRegex = Match (lits ''other.com''),
      logFrequency = 1000000\<rparr>"

definition both_test_com :: config where
  "both_test_com =
     \<lparr>emailRegex = Match (lits ''test.com''), ignoreRegex = Match (lits ''test.com''),
      logFrequency = 1\<rparr>"

definition example_log :: gostr where
  "example_log =
     runes ''t <= Al@test.com H=x for Bo@site.org'' @ [0x0A] @
     runes ''t <= al@test.com H=x for cy@other.com'' @ [0x0A]"

definition example_world :: world where
  "example_world =
     \<lparr>os_Open =
        [''main.log'' \<mapsto> \<lparr>pending = example_log, ending = EOF\<rparr>,
         ''main.log.gz'' \<mapsto> \<lparr>pending = [0x1F, 0x8B, 0x08], ending = EOF\<rparr>,
         ''bad.gz'' \<mapsto> \<lparr>pending = runes ''plain'', ending = EOF\<rparr>],
      gzip_NewReader =
        [\<lparr>pending = [0x1F, 0x8B, 0x08], ending = EOF\<rparr> \<mapsto> \<lparr>pending = example_log, ending = EOF\<rparr>]\<rparr>"

section \<open>Case folding\<close>

lemma letterDiff_val: "r - letterDiff = r + 32"
  by (simp add: letterDiff_def)

lemma toLower_eq: "toLower r = (if 65 \<le> sint r \<and> sint r \<le> 90 then r + 32 else r)"
  by (simp add: toLower_def letterDiff_val word_sle_eq)

lemma sint_plus32:
  assumes "65 \<le> sint (r::rune)" "sint r \<le> 90"
  shows "sint (r + 32) = sint r + 32"
proof -
  have "sint (r + 32) = signed_take_bit 31 (sint r + 32)"
    by (simp add: sint_word_ariths)
  also have "\<dots> = sint r + 32"
    using assms by (intro signed_take_bit_int_eq_self) simp_all
  finally show ?thesis .
qed

text \<open>
  Claim C10. \<open>toLower\<close> sends exactly the runes \<open>'A'\<close> to \<open>'Z'\<close> (65 to 90) to the rune
  32 above, without wrap-around, and returns every other rune unchanged, an upper-case
  letter outside ASCII included.
\<close>

theorem toLower_ascii_only:
  "(65 \<le> sint r \<and> sint r \<le> 90 \<longrightarrow> toLower r = r + 32 \<and> sint (toLower r) = sint r + 32) \<and>
   (\<not> (65 \<le> sint r \<and> sint r \<le> 90) \<longrightarrow> toLower r = r)"
  by (simp add: toLower_eq sint_plus32)

theorem toLower_ascii_only_witness:
  "toLower 0x41 = 0x61 \<and> sint (toLower 0x5A) = 0x7A \<and> toLower 0xC9 = 0xC9 \<and> toLower 0x410 = 0x410"
  using toLower_ascii_only [of "0x41"] toLower_ascii_only [of "0x5A"]
    toLower_ascii_only [of "0xC9"] toLower_ascii_only [of "0x410"]
  by simp

section \<open>The search against the language of the pattern\<close>

lemma lang_PlusI:
  "u \<noteq> [] \<Longrightarrow> list_all (atom_ok a) u \<Longrightarrow> v \<in> lang p \<Longrightarrow> u @ v \<in> lang (Plus a # p)"
  by auto

lemma run_sound:
  "run p s cs = Some (cs', rest) \<Longrightarrow> \<exists>w. s = w @ rest \<and> w \<in> lang p"
proof (induction p s cs arbitrary: cs' rest rule: run.induct)
  case (1 s cs)
  then show ?case by simp
next
  case (2 a p cs)
  then show ?case by simp
next
  case (3 a p c s cs)
  then show ?case by (fastforce split: if_splits)
next
  case (4 a p cs)
  then show ?case by simp
next
  case (5 a p c s cs)
  from "5.prems" have ok: "atom_ok a c" by (simp split: if_splits)
  show ?case
  proof (cases "run (Plus a # p) s cs")
    case None
    with "5.prems" ok have "run p s cs = Some (cs', rest)" by simp
    from "5.IH"(2) [OF ok None this] obtain w where "s = w @ rest" "w \<in> lang p" by blast
    have "[c] @ w \<in> lang (Plus a # p)"
      using ok \<open>w \<in> lang p\<close> by (intro lang_PlusI) simp_all
    moreover have "c # s = ([c] @ w) @ rest" using \<open>s = w @ rest\<close> by simp
    ultimately show ?thesis by blast
  next
    case (Some r)
    with "5.prems" ok have "run (Plus a # p) s cs = Some (cs', rest)" by simp
    from "5.IH"(1) [OF ok this] obtain w where w: "s = w @ rest" "w \<in> lang (Plus a # p)" by blast
    then obtain u v where uv: "w = u @ v" "u \<noteq> []" "list_all (atom_ok a) u" "v \<in> lang p" by auto
    have "(c # u) @ v \<in> lang (Plus a # p)"
      using ok uv by (intro lang_PlusI) simp_all
    moreover have "c # s = ((c # u) @ v) @ rest" using w uv by simp
    ultimately show ?thesis by blast
  qed
next
  case (6 n p s cs)
  then show ?case by (simp add: fun_upd_def)
next
  case (7 n p s cs)
  then show ?case by (simp add: fun_upd_def)
qed

lemma run_Plus_complete:
  "u \<noteq> [] \<Longrightarrow> list_all (atom_ok a) u \<Longrightarrow> run p s cs \<noteq> None \<Longrightarrow> run (Plus a # p) (u @ s) cs \<noteq> None"
proof (induction u)
  case Nil
  then show ?case by simp
next
  case (Cons c u)
  show ?case
  proof (cases "u = []")
    case True
    with Cons.prems show ?thesis by (auto split: option.splits)
  next
    case False
    with Cons show ?thesis by (auto split: option.splits)
  qed
qed

lemma run_complete:
  "w \<in> lang p \<Longrightarrow> run p (w @ rest) cs \<noteq> None"
proof (induction p arbitrary: w cs)
  case Nil
  then show ?case by simp
next
  case (Cons i p)
  show ?case
  proof (cases i)
    case (One a)
    with Cons show ?thesis by auto
  next
    case (Plus a)
    with Cons.prems obtain u v where uv: "w = u @ v" "u \<noteq> []" "list_all (atom_ok a) u" "v \<in> lang p" by auto
    from Cons.IH [OF uv(4)] have "run p (v @ rest) cs \<noteq> None" .
    from run_Plus_complete [OF uv(2,3) this] show ?thesis using Plus uv(1) by simp
  next
    case (CapOpen n)
    with Cons show ?thesis by simp
  next
    case (CapClose n)
    with Cons show ?thesis by simp
  qed
qed

lemma search_sound:
  "search p s = Some (start, cs, rest) \<Longrightarrow>
     \<exists>pre. s = pre @ start \<and> run p start Map.empty = Some (cs, rest)"
proof (induction s)
  case Nil
  then show ?case by (auto split: option.splits)
next
  case (Cons c s)
  show ?case
  proof (cases "run p (c # s) Map.empty")
    case None
    with Cons.prems have "search p s = Some (start, cs, rest)" by simp
    from Cons.IH [OF this] obtain pre where "s = pre @ start" "run p start Map.empty = Some (cs, rest)" by blast
    then have "c # s = (c # pre) @ start \<and> run p start Map.empty = Some (cs, rest)" by simp
    then show ?thesis by blast
  next
    case (Some r)
    with Cons.prems show ?thesis by (cases r) auto
  qed
qed

lemma search_complete:
  "w \<in> lang p \<Longrightarrow> search p (pre @ w @ post) \<noteq> None"
proof (induction pre)
  case Nil
  with run_complete [of w p post Map.empty] show ?case by (auto split: option.splits)
next
  case (Cons c pre)
  then show ?case by (auto split: option.splits)
qed

lemma search_None_iff: "search p s = None \<longleftrightarrow> \<not> contains_match p s"
proof
  assume none: "search p s = None"
  show "\<not> contains_match p s"
  proof
    assume "contains_match p s"
    then obtain pre w post where "s = pre @ w @ post" "w \<in> lang p"
      by (auto simp: contains_match_def)
    with search_complete [of w p pre post] none show False by simp
  qed
next
  assume nm: "\<not> contains_match p s"
  show "search p s = None"
  proof (rule ccontr)
    assume "search p s \<noteq> None"
    then obtain start cs rest where "search p s = Some (start, cs, rest)" by auto
    from search_sound [OF this] obtain pre where pre: "s = pre @ start" "run p start Map.empty = Some (cs, rest)" by blast
    from run_sound [OF pre(2)] obtain w where "start = w @ rest" "w \<in> lang p" by blast
    with pre(1) have "contains_match p s" by (auto simp: contains_match_def)
    with nm show False by simp
  qed
qed


section \<open>What a match of the extraction pattern captures\<close>

lemma token_iff: "token t \<longleftrightarrow> t \<noteq> [] \<and> list_all (atom_ok NotSpace) t"
  by (simp add: token_def is_space_def list_all_iff)

lemma run_One_Some:
  assumes "run (One a # p) s cs = Some r"
  obtains c s' where "s = c # s'" "atom_ok a c" "run p s' cs = Some r"
  using assms by (cases s) (auto split: if_splits)

lemma run_Plus_Some:
  "run (Plus a # p) s cs = Some r \<Longrightarrow>
     \<exists>u s'. s = u @ s' \<and> u \<noteq> [] \<and> list_all (atom_ok a) u \<and> run p s' cs = Some r"
proof (induction s)
  case Nil
  then show ?case by simp
next
  case (Cons c s)
  from Cons.prems have ok: "atom_ok a c" by (simp split: if_splits)
  show ?case
  proof (cases "run (Plus a # p) s cs")
    case None
    with Cons.prems ok have "run p s cs = Some r" by simp
    with ok have "c # s = [c] @ s \<and> [c] \<noteq> [] \<and> list_all (atom_ok a) [c] \<and> run p s cs = Some r"
      by simp
    then show ?thesis by blast
  next
    case (Some r')
    with Cons.prems ok have "run (Plus a # p) s cs = Some r" by simp
    from Cons.IH [OF this] obtain u s' where
      "s = u @ s'" "list_all (atom_ok a) u" "run p s' cs = Some r" by blast
    with ok have "c # s = (c # u) @ s' \<and> c # u \<noteq> [] \<and> list_all (atom_ok a) (c # u) \<and> run p s' cs = Some r"
      by simp
    then show ?thesis by blast
  qed
qed

lemma run_lits_Some:
  "run (lits str @ p) s cs = Some r \<Longrightarrow> \<exists>s'. s = runes str @ s' \<and> run p s' cs = Some r"
proof (induction str arbitrary: s)
  case Nil
  then show ?case by (simp add: lits_def runes_def)
next
  case (Cons x str)
  from Cons.prems have "run (One (Lit (of_char x)) # lits str @ p) s cs = Some r"
    by (simp add: lits_def)
  then obtain c s1 where s: "s = c # s1" "atom_ok (Lit (of_char x)) c" "run (lits str @ p) s1 cs = Some r"
    by (rule run_One_Some)
  from Cons.IH [OF s(3)] obtain s' where "s1 = runes str @ s'" "run p s' cs = Some r" by blast
  with s show ?case by (simp add: runes_def)
qed

lemma run_Plus_last:
  "run [Plus a, CapClose n] s cs = Some (cs', rest) \<Longrightarrow> rest = [] \<or> \<not> atom_ok a (hd rest)"
proof (induction s)
  case Nil
  then show ?case by simp
next
  case (Cons c s)
  from Cons.prems have ok: "atom_ok a c" by (simp split: if_splits)
  show ?case
  proof (cases "run [Plus a, CapClose n] s cs")
    case None
    with Cons.prems ok have rest: "rest = s" by simp
    from None show ?thesis unfolding rest by (cases s) (auto split: if_splits option.splits)
  next
    case (Some r')
    with Cons.prems ok have "run [Plus a, CapClose n] s cs = Some (cs', rest)" by simp
    then show ?thesis by (rule Cons.IH)
  qed
qed

lemma run_Plus_Close_Some:
  assumes "run [Plus a, CapClose n] s cs = Some (cs', rest)"
  obtains u where "s = u @ rest" "u \<noteq> []" "list_all (atom_ok a) u"
    "cs' = cs(n := map_option (\<lambda>(b, _). (b, rest)) (cs n))"
    "rest = [] \<or> \<not> atom_ok a (hd rest)"
proof -
  from run_Plus_Some [OF assms] obtain u s' where
    u: "s = u @ s'" "u \<noteq> []" "list_all (atom_ok a) u" "run [CapClose n] s' cs = Some (cs', rest)" by blast
  from u(4) have "rest = s'" "cs' = cs(n := map_option (\<lambda>(b, _). (b, rest)) (cs n))" by auto
  with u run_Plus_last [OF assms] that show thesis by blast
qed

lemma between_append [simp]: "between (u @ e) e = u"
  by (simp add: between_def)

lemma run_lineMatch_Some:
  assumes "run lineMatch s cs0 = Some (cs, rest)"
  shows "\<exists>pre from mid to.
           s = pre @ runes '' <= '' @ from @ runes '' '' @ mid @ runes '' for '' @ to @ rest \<and>
           pre \<noteq> [] \<and> mid \<noteq> [] \<and> token from \<and> token to \<and>
           submatch cs 1 = from \<and> submatch cs 2 = to \<and>
           (rest = [] \<or> is_space (hd rest))"
proof -
  let ?p5 = "[CapOpen 2, Plus NotSpace, CapClose 2]"
  let ?p4 = "lits '' for '' @ ?p5"
  let ?p3 = "Plus AnyCharNotNL # ?p4"
  let ?p2 = "lits '' '' @ ?p3"
  let ?p1 = "[CapOpen 1, Plus NotSpace, CapClose 1] @ ?p2"
  let ?p0 = "lits '' <= '' @ ?p1"
  from assms have "run (Plus AnyCharNotNL # ?p0) s cs0 = Some (cs, rest)"
    by (simp add: lineMatch_def)
  from run_Plus_Some [OF this] obtain pre s0 where
    pre: "s = pre @ s0" "pre \<noteq> []" and r0: "run ?p0 s0 cs0 = Some (cs, rest)" by blast
  from run_lits_Some [OF r0] obtain s1 where
    s0: "s0 = runes '' <= '' @ s1" and r1: "run ?p1 s1 cs0 = Some (cs, rest)" by blast
  let ?cs1 = "cs0(1 \<mapsto> (s1, s1))"
  from r1 have "run (Plus NotSpace # CapClose 1 # ?p2) s1 ?cs1 = Some (cs, rest)" by simp
  from run_Plus_Some [OF this] obtain "from" s2 where
    frm: "s1 = from @ s2" "from \<noteq> []" "list_all (atom_ok NotSpace) from"
    and r2': "run (CapClose 1 # ?p2) s2 ?cs1 = Some (cs, rest)" by blast
  let ?cs2 = "cs0(1 \<mapsto> (s1, s2))"
  from r2' have r2: "run ?p2 s2 ?cs2 = Some (cs, rest)" by simp
  from run_lits_Some [OF r2] obtain s3 where
    s2: "s2 = runes '' '' @ s3" and r3: "run ?p3 s3 ?cs2 = Some (cs, rest)" by blast
  from run_Plus_Some [OF r3] obtain mid s4 where
    mid: "s3 = mid @ s4" "mid \<noteq> []" and r4: "run ?p4 s4 ?cs2 = Some (cs, rest)" by blast
  from run_lits_Some [OF r4] obtain s5 where
    s4: "s4 = runes '' for '' @ s5" and r5: "run ?p5 s5 ?cs2 = Some (cs, rest)" by blast
  let ?cs3 = "?cs2(2 \<mapsto> (s5, s5))"
  from r5 have "run [Plus NotSpace, CapClose 2] s5 ?cs3 = Some (cs, rest)" by simp
  then obtain to where
    to: "s5 = to @ rest" "to \<noteq> []" "list_all (atom_ok NotSpace) to"
    and cs: "cs = ?cs3(2 := map_option (\<lambda>(b, _). (b, rest)) (?cs3 2))"
    and fin: "rest = [] \<or> \<not> atom_ok NotSpace (hd rest)"
    by (rule run_Plus_Close_Some)
  have "submatch cs 1 = from" using cs frm(1) by (simp add: submatch_def)
  moreover have "submatch cs 2 = to" using cs to(1) by (simp add: submatch_def)
  moreover have "s = pre @ runes '' <= '' @ from @ runes '' '' @ mid @ runes '' for '' @ to @ rest"
    using pre(1) s0 frm(1) s2 mid(1) s4 to(1) by simp
  moreover have "token from" "token to"
    using frm(2,3) to(2,3) by (simp_all add: token_iff)
  moreover have "rest = [] \<or> is_space (hd rest)"
    using fin by (simp add: is_space_def)
  ultimately show ?thesis
    using pre(2) mid(2) by blast
qed


lemma NumSubexp_lineMatch: "NumSubexp lineMatch = 2"
  by (simp add: lineMatch_def lits_def)

lemma FindSubmatch_lineMatch_Some:
  assumes "FindSubmatch lineMatch line = Some matches"
  shows "\<exists>whole pre from mid to post.
           line = pre @ runes '' <= '' @ from @ runes '' '' @ mid @ runes '' for '' @ to @ post \<and>
           pre \<noteq> [] \<and> mid \<noteq> [] \<and> token from \<and> token to \<and>
           (post = [] \<or> is_space (hd post)) \<and>
           matches = [whole, from, to]"
proof -
  from assms obtain start cs rest where
    srch: "search lineMatch line = Some (start, cs, rest)"
    and m: "matches = between start rest # map (submatch cs) [1 ..< Suc (NumSubexp lineMatch)]"
    by (auto simp: FindSubmatch_def split: option.splits)
  from search_sound [OF srch] obtain pre0 where
    line: "line = pre0 @ start" and r: "run lineMatch start Map.empty = Some (cs, rest)" by blast
  from run_lineMatch_Some [OF r] obtain pre "from" mid to where
    d: "start = pre @ runes '' <= '' @ from @ runes '' '' @ mid @ runes '' for '' @ to @ rest"
      "pre \<noteq> []" "mid \<noteq> []" "token from" "token to"
      "submatch cs 1 = from" "submatch cs 2 = to" "rest = [] \<or> is_space (hd rest)"
    by blast
  have "[1 ..< Suc (NumSubexp lineMatch)] = [1, 2]"
    by (simp add: NumSubexp_lineMatch upt_rec)
  with m d(6,7) have "matches = [between start rest, from, to]" by simp
  moreover have "line = (pre0 @ pre) @ runes '' <= '' @ from @ runes '' '' @ mid @ runes '' for '' @ to @ rest"
    using line d(1) by simp
  moreover have "pre0 @ pre \<noteq> []" using d(2) by simp
  ultimately show ?thesis using d(3,4,5,8) by blast
qed

lemma FindSubmatch_None_iff: "FindSubmatch p s = None \<longleftrightarrow> \<not> contains_match p s"
  using search_None_iff [of p s] by (auto simp: FindSubmatch_def split: option.splits)

text \<open>
  Claim C1. A line that contains no match of the delivery-record pattern yields no pair,
  and every other line yields one. The pair \<open>(from, to)\<close> it yields is cut out of the line
  as follows: \<open>from\<close> is a run of non-whitespace runes that stands between the marker
  \<^verbatim>\<open>" <= "\<close> and a space, and \<open>to\<close> is a run of non-whitespace runes that follows the
  marker \<^verbatim>\<open>" for "\<close> and ends at a whitespace rune or at the end of the line, whatever
  text surrounds them.
\<close>

theorem LineParser_tokens:
  "(LineParser line = None \<longleftrightarrow> \<not> contains_match lineMatch line) \<and>
   (LineParser line = Some (from, to) \<longrightarrow>
      (\<exists>pre mid post.
         line = pre @ runes '' <= '' @ from @ runes '' '' @ mid @ runes '' for '' @ to @ post \<and>
         pre \<noteq> [] \<and> mid \<noteq> [] \<and> token from \<and> token to \<and>
         (post = [] \<or> is_space (hd post))))"
proof (intro conjI impI)
  show "LineParser line = None \<longleftrightarrow> \<not> contains_match lineMatch line"
    using FindSubmatch_None_iff [of lineMatch line]
    by (auto simp: LineParser_def split: option.splits)
next
  assume "LineParser line = Some (from, to)"
  then obtain matches where m: "FindSubmatch lineMatch line = Some matches"
    and ft: "from = matches ! 1" "to = matches ! 2"
    by (auto simp: LineParser_def split: option.splits)
  from FindSubmatch_lineMatch_Some [OF m] obtain whole pre f mid t post where
    d: "line = pre @ runes '' <= '' @ f @ runes '' '' @ mid @ runes '' for '' @ t @ post"
      "pre \<noteq> []" "mid \<noteq> []" "token f" "token t" "post = [] \<or> is_space (hd post)"
    and ms: "matches = [whole, f, t]"
    by blast
  from ms ft have "f = from" "t = to" by simp_all
  with d show "\<exists>pre mid post.
         line = pre @ runes '' <= '' @ from @ runes '' '' @ mid @ runes '' for '' @ to @ post \<and>
         pre \<noteq> [] \<and> mid \<noteq> [] \<and> token from \<and> token to \<and>
         (post = [] \<or> is_space (hd post))"
    by blast
qed

lemma LineParser_ex1:
  "LineParser (runes ''2024-01-01 10:00:00 <= alice@test.com ... for bob@other.com'' @ [0x0A]) =
     Some (runes ''alice@test.com'', runes ''bob@other.com'')"
  by (simp add: LineParser_def FindSubmatch_def lineMatch_def lits_def runes_def submatch_def between_def)

lemma LineParser_ex2:
  "LineParser (runes ''2024-01-01 10:00:00 <= alice@test.com for bob@other.com'' @ [0x0A]) = None"
  by (simp add: LineParser_def FindSubmatch_def lineMatch_def lits_def runes_def submatch_def between_def)

theorem LineParser_tokens_witness:
  "LineParser (runes ''2024-01-01 10:00:00 <= alice@test.com ... for bob@other.com'' @ [0x0A]) =
     Some (runes ''alice@test.com'', runes ''bob@other.com'') \<and>
   (\<exists>pre mid post.
      runes ''2024-01-01 10:00:00 <= alice@test.com ... for bob@other.com'' @ [0x0A] =
        pre @ runes '' <= '' @ runes ''alice@test.com'' @ runes '' '' @ mid @ runes '' for '' @
        runes ''bob@other.com'' @ post \<and>
      pre \<noteq> [] \<and> mid \<noteq> [] \<and> token (runes ''alice@test.com'') \<and> token (runes ''bob@other.com'') \<and>
      (post = [] \<or> is_space (hd post))) \<and>
   LineParser (runes ''2024-01-01 10:00:00 <= alice@test.com for bob@other.com'' @ [0x0A]) = None \<and>
   \<not> contains_match lineMatch
        (runes ''2024-01-01 10:00:00 <= alice@test.com for bob@other.com'' @ [0x0A])"
  using LineParser_tokens [of "runes ''2024-01-01 10:00:00 <= alice@test.com ... for bob@other.com'' @ [0x0A]"
      "runes ''alice@test.com''" "runes ''bob@other.com''"]
    LineParser_tokens [of "runes ''2024-01-01 10:00:00 <= alice@test.com for bob@other.com'' @ [0x0A]"]
    LineParser_ex1 LineParser_ex2
  by blast

section \<open>The loop bodies on a parsed line\<close>

lemma FindSubmatch_LineParser:
  "LineParser line = Some (f, t) \<Longrightarrow> \<exists>matches. FindSubmatch lineMatch line = Some matches \<and> matches ! 1 = f \<and> matches ! 2 = t"
  by (auto simp: LineParser_def split: option.splits)

lemma record_pair_emails:
  "emails (record_pair k v s) =
     (emails s)(k \<mapsto> (case emails s k of Some val \<Rightarrow> val(v \<mapsto> True) | None \<Rightarrow> [v \<mapsto> True]))"
  by (simp add: record_pair_def split: option.splits)

lemma record_pair_present:
  "\<exists>val. emails (record_pair k v s) k = Some val \<and> val v = Some True"
  by (simp add: record_pair_emails split: option.splits)

lemma record_pair_fields:
  "matchCount (record_pair k v s) = matchCount s"
  "lineCount (record_pair k v s) = lineCount s"
  "ignoreCount (record_pair k v s) = ignoreCount s"
  "logLineCount (record_pair k v s) = logLineCount s"
  "logged (record_pair k v s) = logged s"
  "remainingFiles (record_pair k v s) = remainingFiles s"
  by (simp_all add: record_pair_def split: option.splits)

lemma handleLine_parsed:
  assumes "LineParser line = Some (from, to)"
  shows "handleLine cfg line s =
     (if \<not> emailRegex cfg from then s\<lparr>ignoreCount := ignoreCount s + 1\<rparr>
      else if ignoreRegex cfg to then s\<lparr>ignoreCount := ignoreCount s + 1\<rparr>
      else (record_pair (bytes_Map toLower from) (bytes_Map toLower to) s)
             \<lparr>matchCount := matchCount s + 1, lineCount := lineCount s + 1,
              logLineCount := logLineCount s - 1\<rparr>)"
proof -
  from FindSubmatch_LineParser [OF assms] obtain matches where
    "FindSubmatch lineMatch line = Some matches" "matches ! 1 = from" "matches ! 2 = to"
    by blast
  then show ?thesis
    by (simp add: handleLine_def Let_def record_pair_fields)
qed


lemma record_entry_fields:
  "matchCount (record_entry k v c) = matchCount c"
  "lineCount (record_entry k v c) = lineCount c"
  "ignoreCount (record_entry k v c) = ignoreCount c"
  "logLineCount (record_entry k v c) = logLineCount c"
  "logged (record_entry k v c) = logged c"
  by (simp_all add: record_entry_def split: option.splits)

lemma record_entry_emails:
  "emails (record_entry k v c) =
     (emails c)(k \<mapsto> (case emails c k of Some val \<Rightarrow> val(v \<mapsto> True) | None \<Rightarrow> [v \<mapsto> True]))"
  by (simp add: record_entry_def split: option.splits)

lemma main_line_parsed:
  assumes "LineParser line = Some (g1, g2)"
  shows "main_line email line c =
     (if email g1 \<and> email g2 then c\<lparr>ignoreCount := ignoreCount c + 1\<rparr>
      else (if email g1 then record_entry g1 g2 (c\<lparr>matchCount := matchCount c + 1\<rparr>)
            else record_entry g2 g1 (c\<lparr>matchCount := matchCount c + 1\<rparr>))
             \<lparr>lineCount := lineCount c + 1, logLineCount := logLineCount c - 1\<rparr>)"
proof -
  from FindSubmatch_LineParser [OF assms] obtain matches where
    "FindSubmatch lineMatch line = Some matches" "matches ! 1 = g1" "matches ! 2 = g2"
    by blast
  then show ?thesis
    by (simp add: main_line_def Let_def record_entry_fields)
qed

section \<open>Classification in the concurrent variant\<close>

text \<open>
  Claim C2. For a line parsed to \<open>(from, to)\<close>, \<open>processFile\<close> only counts the pair as
  ignored when \<open>from\<close> does not match the inclusion pattern, does the same when \<open>from\<close>
  matches and \<open>to\<close> matches the exclusion pattern, and otherwise records the pair under
  the case-folded \<open>from\<close>, with the case-folded \<open>to\<close> as correspondent.
\<close>

theorem handleLine_sender_anchored:
  assumes "LineParser line = Some (from, to)"
  shows "(\<not> emailRegex cfg from \<longrightarrow>
            handleLine cfg line s = s\<lparr>ignoreCount := ignoreCount s + 1\<rparr>) \<and>
         (emailRegex cfg from \<and> ignoreRegex cfg to \<longrightarrow>
            handleLine cfg line s = s\<lparr>ignoreCount := ignoreCount s + 1\<rparr>) \<and>
         (emailRegex cfg from \<and> \<not> ignoreRegex cfg to \<longrightarrow>
            handleLine cfg line s =
              (record_pair (bytes_Map toLower from) (bytes_Map toLower to) s)
                \<lparr>matchCount := matchCount s + 1, lineCount := lineCount s + 1,
                 logLineCount := logLineCount s - 1\<rparr> \<and>
            (\<exists>val. emails (handleLine cfg line s) (bytes_Map toLower from) = Some val \<and>
                   val (bytes_Map toLower to) = Some True))"
  using handleLine_parsed [OF assms, of cfg s]
    record_pair_present [of "bytes_Map toLower from" "bytes_Map toLower to" s]
  by simp

lemmas eval_defs = LineParser_def FindSubmatch_def lineMatch_def lits_def runes_def submatch_def
  between_def Match_def

lemma fold_examples:
  "bytes_Map toLower (runes ''Al@test.com'') = runes ''al@test.com''"
  "bytes_Map toLower (runes ''Bo@site.org'') = runes ''bo@site.org''"
  by (simp_all add: bytes_Map_def toLower_def letterDiff_def word_sle_eq runes_def)

lemma LineParser_examples:
  "LineParser (runes ''t <= Al@test.com H=x for Bo@site.org'' @ [0x0A]) =
     Some (runes ''Al@test.com'', runes ''Bo@site.org'')"
  "LineParser (runes ''t <= al@test.com H=x for cy@other.com'' @ [0x0A]) =
     Some (runes ''al@test.com'', runes ''cy@other.com'')"
  "LineParser (runes ''t <= al@site.org H=x for bo@test.com'' @ [0x0A]) =
     Some (runes ''al@site.org'', runes ''bo@test.com'')"
  "LineParser (runes ''t <= al@test.com H=x for bo@test.com'' @ [0x0A]) =
     Some (runes ''al@test.com'', runes ''bo@test.com'')"
  "LineParser (runes ''t <= al@site.org H=x for bo@site.org'' @ [0x0A]) =
     Some (runes ''al@site.org'', runes ''bo@site.org'')"
  by (simp_all add: eval_defs)

lemma example_config_matches:
  "emailRegex example_config (runes ''Al@test.com'')"
  "emailRegex example_config (runes ''al@test.com'')"
  "emailRegex example_config (runes ''bo@test.com'')"
  "\<not> emailRegex example_config (runes ''al@site.org'')"
  "\<not> ignoreRegex example_config (runes ''Bo@site.org'')"
  "\<not> ignoreRegex example_config (runes ''bo@test.com'')"
  "ignoreRegex example_config (runes ''cy@other.com'')"
  by (simp_all add: example_config_def eval_defs)

theorem handleLine_sender_anchored_witness:
  "handleLine example_config (runes ''t <= al@site.org H=x for bo@test.com'' @ [0x0A]) initial_state =
     initial_state\<lparr>ignoreCount := 1\<rparr> \<and>
   handleLine example_config (runes ''t <= al@test.com H=x for cy@other.com'' @ [0x0A]) initial_state =
     initial_state\<lparr>ignoreCount := 1\<rparr> \<and>
   (\<exists>val. emails (handleLine example_config
                    (runes ''t <= Al@test.com H=x for Bo@site.org'' @ [0x0A]) initial_state)
             (runes ''al@test.com'') = Some val \<and>
          val (runes ''bo@site.org'') = Some True)"
proof -
  have "handleLine example_config (runes ''t <= al@site.org H=x for bo@test.com'' @ [0x0A])
          initial_state = initial_state\<lparr>ignoreCount := 1\<rparr>"
    using handleLine_sender_anchored [OF LineParser_examples(3), of example_config initial_state]
      example_config_matches(4)
    by (simp add: initial_state_def)
  moreover have "handleLine example_config (runes ''t <= al@test.com H=x for cy@other.com'' @ [0x0A])
          initial_state = initial_state\<lparr>ignoreCount := 1\<rparr>"
    using handleLine_sender_anchored [OF LineParser_examples(2), of example_config initial_state]
      example_config_matches(2,7)
    by (simp add: initial_state_def)
  moreover have "\<exists>val. emails (handleLine example_config
                    (runes ''t <= Al@test.com H=x for Bo@site.org'' @ [0x0A]) initial_state)
             (runes ''al@test.com'') = Some val \<and>
          val (runes ''bo@site.org'') = Some True"
    using handleLine_sender_anchored [OF LineParser_examples(1), of example_config initial_state]
      example_config_matches(1,5)
    unfolding fold_examples by blast
  ultimately show ?thesis by blast
qed

section \<open>Recording a pair twice\<close>

lemma record_pair_twice: "record_pair k v (record_pair k v s) = record_pair k v s"
  by (simp add: record_pair_def split: option.splits)

lemma record_entry_twice: "record_entry k v (record_entry k v c) = record_entry k v c"
  by (simp add: record_entry_def split: option.splits)

lemma correspondents_record_pair:
  "correspondents (record_pair k v s) k = insert v (correspondents s k)"
  by (simp add: correspondents_def record_pair_emails split: option.splits)

lemma correspondents_record_entry:
  "correspondents (record_entry k v c) k = insert v (correspondents c k)"
  by (simp add: correspondents_def record_entry_emails split: option.splits)

text \<open>
  Claim C3. Recording the same owner and correspondent a second time changes nothing:
  the state after two calls is the state after one, so the owner's set of correspondents
  has the size it had after the first call, from every prior state. This holds for the
  critical section of \<open>processFile\<close> and for the sequential variants.
\<close>

theorem record_idempotent:
  "record_pair owner correspondent (record_pair owner correspondent s) =
     record_pair owner correspondent s \<and>
   correspondents (record_pair owner correspondent s) owner =
     insert correspondent (correspondents s owner) \<and>
   card (correspondents (record_pair owner correspondent (record_pair owner correspondent s)) owner) =
     card (correspondents (record_pair owner correspondent s) owner) \<and>
   record_entry owner correspondent (record_entry owner correspondent c) =
     record_entry owner correspondent c \<and>
   correspondents (record_entry owner correspondent c) owner =
     insert correspondent (correspondents c owner) \<and>
   card (correspondents (record_entry owner correspondent (record_entry owner correspondent c)) owner) =
     card (correspondents (record_entry owner correspondent c) owner)"
  by (simp add: record_pair_twice record_entry_twice correspondents_record_pair
      correspondents_record_entry)

section \<open>Pairs with both addresses in the inclusion pattern\<close>

text \<open>
  Claim C6 as stated fails in the sender-anchored mode: with both addresses in the
  inclusion pattern and \<open>to\<close> outside the exclusion pattern the pair is recorded, and
  nothing is counted as ignored.
\<close>

theorem both_match_recorded_counterexample:
  "LineParser (runes ''t <= al@test.com H=x for bo@test.com'' @ [0x0A]) =
     Some (runes ''al@test.com'', runes ''bo@test.com'') \<and>
   emailRegex example_config (runes ''al@test.com'') \<and>
   emailRegex example_config (runes ''bo@test.com'') \<and>
   ignoreCount (handleLine example_config
     (runes ''t <= al@test.com H=x for bo@test.com'' @ [0x0A]) initial_state) = 0 \<and>
   matchCount (handleLine example_config
     (runes ''t <= al@test.com H=x for bo@test.com'' @ [0x0A]) initial_state) = 1 \<and>
   emails (handleLine example_config
     (runes ''t <= al@test.com H=x for bo@test.com'' @ [0x0A]) initial_state) =
     [runes ''al@test.com'' \<mapsto> [runes ''bo@test.com'' \<mapsto> True]]"
proof -
  have fold: "bytes_Map toLower (runes ''al@test.com'') = runes ''al@test.com''"
    "bytes_Map toLower (runes ''bo@test.com'') = runes ''bo@test.com''"
    by (simp_all add: bytes_Map_def toLower_def letterDiff_def word_sle_eq runes_def)
  show ?thesis
    using handleLine_parsed [OF LineParser_examples(4), of example_config initial_state]
      LineParser_examples(4) example_config_matches(2,3,6)
    by (simp add: fold record_pair_fields record_pair_emails initial_state_def)
qed

text \<open>
  Claim C6, amended. In the symmetric mode a parsed pair whose two addresses both match
  the inclusion pattern is discarded and counted as ignored. In the sender-anchored mode
  such a pair is discarded and counted as ignored when \<open>to\<close> also matches the exclusion
  pattern, and is recorded under \<open>from\<close> otherwise.
\<close>

theorem both_match_discard:
  assumes "LineParser line = Some (from, to)"
  shows "(email from \<and> email to \<longrightarrow>
            main_line email line c = c\<lparr>ignoreCount := ignoreCount c + 1\<rparr>) \<and>
         (emailRegex cfg from \<and> emailRegex cfg to \<and> ignoreRegex cfg to \<longrightarrow>
            handleLine cfg line s = s\<lparr>ignoreCount := ignoreCount s + 1\<rparr>) \<and>
         (emailRegex cfg from \<and> emailRegex cfg to \<and> \<not> ignoreRegex cfg to \<longrightarrow>
            handleLine cfg line s =
              (record_pair (bytes_Map toLower from) (bytes_Map toLower to) s)
                \<lparr>matchCount := matchCount s + 1, lineCount := lineCount s + 1,
                 logLineCount := logLineCount s - 1\<rparr>)"
  using main_line_parsed [OF assms, of email c] handleLine_parsed [OF assms, of cfg s]
  by simp

theorem both_match_discard_witness:
  "main_line (Match (lits ''test.com'')) (runes ''t <= al@test.com H=x for bo@test.com'' @ [0x0A])
     initial_counters = initial_counters\<lparr>ignoreCount := 1\<rparr> \<and>
   handleLine both_test_com (runes ''t <= al@test.com H=x for bo@test.com'' @ [0x0A])
     initial_state = initial_state\<lparr>ignoreCount := 1\<rparr> \<and>
   matchCount (handleLine example_config (runes ''t <= al@test.com H=x for bo@test.com'' @ [0x0A])
     initial_state) = 1"
proof -
  have m: "Match (lits ''test.com'') (runes ''al@test.com'')"
    "Match (lits ''test.com'') (runes ''bo@test.com'')"
    by (simp_all add: eval_defs)
  have "main_line (Match (lits ''test.com'')) (runes ''t <= al@test.com H=x for bo@test.com'' @ [0x0A])
     initial_counters = initial_counters\<lparr>ignoreCount := 1\<rparr>"
    using both_match_discard [OF LineParser_examples(4), of "Match (lits ''test.com'')"] m
    by (simp add: initial_counters_def)
  moreover have "handleLine both_test_com (runes ''t <= al@test.com H=x for bo@test.com'' @ [0x0A])
     initial_state = initial_state\<lparr>ignoreCount := 1\<rparr>"
    using both_match_discard [OF LineParser_examples(4), of _ _ both_test_com initial_state] m
    by (simp add: initial_state_def both_test_com_def)
  moreover have "matchCount (handleLine example_config
     (runes ''t <= al@test.com H=x for bo@test.com'' @ [0x0A]) initial_state) = 1"
    using both_match_discard [OF LineParser_examples(4), of _ _ example_config initial_state]
      example_config_matches(2,3,6)
    by (simp add: initial_state_def)
  ultimately show ?thesis by blast
qed

section \<open>Pairs with no address in the inclusion pattern, sequential variants\<close>

text \<open>
  Claim C9. In the symmetric mode a pair with no address in the inclusion pattern is
  counted as matched and kept. The sequential variants file it under the token of the
  second group (the recipient), with the token of the first group as correspondent: the
  locals \<^verbatim>\<open>to\<close> and \<^verbatim>\<open>from\<close> are bound to groups 1 and 2, against the names of the
  groups and against \<^verbatim>\<open>processFile\<close>.
\<close>

theorem main_line_neither_matches_example:
  "LineParser (runes ''t <= al@site.org H=x for bo@site.org'' @ [0x0A]) =
     Some (runes ''al@site.org'', runes ''bo@site.org'') \<and>
   \<not> Match test_com (runes ''al@site.org'') \<and> \<not> Match test_com (runes ''bo@site.org'') \<and>
   emails (main_line (Match test_com) (runes ''t <= al@site.org H=x for bo@site.org'' @ [0x0A])
     initial_counters) = [runes ''bo@site.org'' \<mapsto> [runes ''al@site.org'' \<mapsto> True]] \<and>
   matchCount (main_line (Match test_com) (runes ''t <= al@site.org H=x for bo@site.org'' @ [0x0A])
     initial_counters) = 1 \<and>
   ignoreCount (main_line (Match test_com) (runes ''t <= al@site.org H=x for bo@site.org'' @ [0x0A])
     initial_counters) = 0"
proof -
  have m: "\<not> Match test_com (runes ''al@site.org'')" "\<not> Match test_com (runes ''bo@site.org'')"
    by (simp_all add: test_com_def eval_defs)
  show ?thesis
    using main_line_parsed [OF LineParser_examples(5), of "Match test_com" initial_counters]
      LineParser_examples(5) m
    by (simp add: record_entry_fields record_entry_emails initial_counters_def)
qed

section \<open>The aggregation map and the counters only grow\<close>























section \<open>Plain and compressed files\<close>

lemma filepath_Ext_gz: "filepath_Ext (base @ ''.gz'') = ''.gz''"
  by (simp add: filepath_Ext_def)

lemma handleLine_logged:
  "handleLine cfg line (s\<lparr>logged := l\<rparr>) = (handleLine cfg line s)\<lparr>logged := l\<rparr>"
  by (simp add: handleLine_def record_pair_def Let_def split: option.splits)

lemma progress_logged:
  "\<exists>l'. progress cfg (s\<lparr>logged := l\<rparr>) = (progress cfg s)\<lparr>logged := l'\<rparr>"
proof (cases "logLineCount s \<le> 0")
  case True
  then have "progress cfg (s\<lparr>logged := l\<rparr>) = (progress cfg s)
      \<lparr>logged := l @ [CrunchingProgress [lineCount s, matchCount s, ignoreCount s, fromCount s]]\<rparr>"
    by (simp add: progress_def emit_def)
  then show ?thesis by blast
next
  case False
  then have "progress cfg (s\<lparr>logged := l\<rparr>) = (progress cfg s)\<lparr>logged := l\<rparr>"
    by (simp add: progress_def emit_def)
  then show ?thesis by blast
qed

lemma readLoop_logged:
  "unlogged (readLoop cfg fileName' rd (s\<lparr>logged := l\<rparr>)) = unlogged (readLoop cfg fileName rd s)"
proof (induction cfg fileName rd s arbitrary: l rule: readLoop.induct)
  case (1 cfg fileName rd s)
  let ?err = "fst (snd (ReadBytes 0x0A rd))"
  let ?line = "fst (ReadBytes 0x0A rd)"
  let ?rd' = "snd (snd (ReadBytes 0x0A rd))"
  obtain l' where p: "progress cfg (s\<lparr>logged := l\<rparr>) = (progress cfg s)\<lparr>logged := l'\<rparr>"
    using progress_logged by blast
  show ?case
  proof (cases ?err)
    case None
    have "unlogged (readLoop cfg fileName' ?rd' ((handleLine cfg ?line (progress cfg s))\<lparr>logged := l'\<rparr>)) =
          unlogged (readLoop cfg fileName ?rd' (handleLine cfg ?line (progress cfg s)))"
      using None by (intro "1.IH") simp_all
    then show ?thesis
      using None p
      by (subst readLoop.simps, subst (2) readLoop.simps) (simp add: Let_def handleLine_logged)
  next
    case (Some e)
    then show ?thesis
      using p
      by (subst readLoop.simps, subst (2) readLoop.simps) (simp add: Let_def emit_def unlogged_def)
  qed
qed

lemma readLoop_emit:
  "unlogged (readLoop cfg fileName' rd (emit e s)) = unlogged (readLoop cfg fileName rd (emit e' s))"
  using readLoop_logged [where cfg = cfg and fileName' = fileName' and rd = rd and s = s
      and l = "logged s @ [e]" and fileName = fileName]
    readLoop_logged [where cfg = cfg and fileName' = fileName and rd = rd and s = s
      and l = "logged s @ [e']" and fileName = fileName]
  by (simp add: emit_def)

lemma unlogged_fields:
  assumes "unlogged t' = unlogged t"
  shows "emails t' = emails t" "lineCount t' = lineCount t" "matchCount t' = matchCount t"
    "ignoreCount t' = ignoreCount t" "fromCount t' = fromCount t"
proof -
  have "emails (unlogged t') = emails (unlogged t)" "lineCount (unlogged t') = lineCount (unlogged t)"
    "matchCount (unlogged t') = matchCount (unlogged t)"
    "ignoreCount (unlogged t') = ignoreCount (unlogged t)"
    "fromCount (unlogged t') = fromCount (unlogged t)"
    using assms by simp_all
  then show "emails t' = emails t" "lineCount t' = lineCount t" "matchCount t' = matchCount t"
    "ignoreCount t' = ignoreCount t" "fromCount t' = fromCount t"
    by (simp_all add: unlogged_def)
qed

text \<open>
  Claim C7. When a plain file holds some content and a file whose name ends in \<^verbatim>\<open>.gz\<close>
  holds bytes that the decompressor turns into the same content, \<open>processFile\<close> returns
  for both, from the same start state, with the same aggregation map and the same
  counters: after decompression both run the same loop over the same lines.
\<close>

theorem gzip_same_aggregation:
  assumes "os_Open w plainName = Some \<lparr>pending = content, ending = EOF\<rparr>"
    and "filepath_Ext plainName \<noteq> ''.gz''"
    and "os_Open w (base @ ''.gz'') = Some compressed"
    and "gzip_NewReader w compressed = Some \<lparr>pending = content, ending = EOF\<rparr>"
  shows "\<exists>t t'. processFile cfg w plainName s = Returned t \<and>
           processFile cfg w (base @ ''.gz'') s = Returned t' \<and>
           emails t' = emails t \<and> lineCount t' = lineCount t \<and> matchCount t' = matchCount t \<and>
           ignoreCount t' = ignoreCount t \<and> fromCount t' = fromCount t"
proof -
  let ?rd = "\<lparr>pending = content, ending = EOF\<rparr>"
  let ?t = "readLoop cfg plainName ?rd (emit (ReadingFile plainName (remainingFiles s)) s)"
  let ?t' = "readLoop cfg (base @ ''.gz'') ?rd
               (emit (ReadingFile (base @ ''.gz'') (remainingFiles s)) s)"
  have "processFile cfg w plainName s = Returned ?t"
    using assms(1,2) by (simp add: processFile_def file_reader_def)
  moreover have "processFile cfg w (base @ ''.gz'') s = Returned ?t'"
    using assms(3,4) by (simp add: processFile_def file_reader_def filepath_Ext_gz)
  moreover have "unlogged ?t' = unlogged ?t"
    by (rule readLoop_emit)
  ultimately show ?thesis
    using unlogged_fields [of ?t' ?t] by blast
qed

lemma ReadBytes_line:
  "delim \<notin> set line \<Longrightarrow>
     ReadBytes delim \<lparr>pending = line @ delim # rest, ending = e\<rparr> =
       (line @ [delim], None, \<lparr>pending = rest, ending = e\<rparr>)"
proof -
  assume "delim \<notin> set line"
  then have a: "\<And>x. x \<in> set line \<Longrightarrow> x \<noteq> delim" by auto
  have "dropWhile (\<lambda>c. c \<noteq> delim) (line @ delim # rest) = delim # rest"
    using a by simp
  moreover have "takeWhile (\<lambda>c. c \<noteq> delim) (line @ delim # rest) = line"
    using a by simp
  ultimately show ?thesis by (simp add: ReadBytes_def)
qed

lemma ReadBytes_end:
  "delim \<notin> set rest \<Longrightarrow>
     ReadBytes delim \<lparr>pending = rest, ending = e\<rparr> = (rest, Some e, \<lparr>pending = [], ending = e\<rparr>)"
proof -
  assume "delim \<notin> set rest"
  then have dw: "dropWhile (\<lambda>c. c \<noteq> delim) rest = []" by auto
  show ?thesis by (simp add: ReadBytes_def dw del: dropWhile_eq_Nil_conv)
qed

lemma readLoop_line:
  "0x0A \<notin> set line \<Longrightarrow>
     readLoop cfg fileName \<lparr>pending = line @ 0x0A # rest, ending = e\<rparr> s =
       readLoop cfg fileName \<lparr>pending = rest, ending = e\<rparr>
         (handleLine cfg (line @ [0x0A]) (progress cfg s))"
  by (subst readLoop.simps) (simp add: ReadBytes_line Let_def)

lemma readLoop_end:
  "0x0A \<notin> set rest \<Longrightarrow>
     readLoop cfg fileName \<lparr>pending = rest, ending = e\<rparr> s =
       (if e = EOF
        then emit (FinishedReadingFile fileName)
               ((progress cfg s)\<lparr>remainingFiles := remainingFiles (progress cfg s) - 1\<rparr>)
        else emit (CouldNotReadFile fileName) (progress cfg s))"
  by (subst readLoop.simps) (simp add: ReadBytes_end Let_def)

lemma readLoop_example:
  "readLoop example_config fileName \<lparr>pending = example_log, ending = EOF\<rparr>
     (emit (ReadingFile fileName 0) initial_state) =
     \<lparr>emails = [runes ''al@test.com'' \<mapsto> [runes ''bo@site.org'' \<mapsto> True]],
      lineCount = 1, matchCount = 1, ignoreCount = 1, logLineCount = 1000000,
      logged = [ReadingFile fileName 0, CrunchingProgress [1, 1, 0, 1],
                FinishedReadingFile fileName],
      fromCount = 1, remainingFiles = - 1\<rparr>"
proof -
  have nl: "0x0A \<notin> set (runes ''t <= Al@test.com H=x for Bo@site.org'')"
    "0x0A \<notin> set (runes ''t <= al@test.com H=x for cy@other.com'')"
    by (simp_all add: runes_def)
  have "readLoop example_config fileName \<lparr>pending = example_log, ending = EOF\<rparr> s =
        readLoop example_config fileName \<lparr>pending = [], ending = EOF\<rparr>
          (handleLine example_config (runes ''t <= al@test.com H=x for cy@other.com'' @ [0x0A])
             (progress example_config
                (handleLine example_config (runes ''t <= Al@test.com H=x for Bo@site.org'' @ [0x0A])
                   (progress example_config s))))" for s
    unfolding example_log_def
    by (simp add: readLoop_line [OF nl(1)] readLoop_line [OF nl(2)])
  then show ?thesis
    by (simp add: readLoop_end handleLine_parsed [OF LineParser_examples(1)]
        handleLine_parsed [OF LineParser_examples(2)] example_config_matches fold_examples
        progress_def emit_def initial_state_def record_pair_def)
      (simp add: example_config_def)
qed

lemma processFile_example:
  "processFile example_config example_world ''main.log'' initial_state =
     Returned
       \<lparr>emails = [runes ''al@test.com'' \<mapsto> [runes ''bo@site.org'' \<mapsto> True]],
        lineCount = 1, matchCount = 1, ignoreCount = 1, logLineCount = 1000000,
        logged = [ReadingFile ''main.log'' 0, CrunchingProgress [1, 1, 0, 1],
                  FinishedReadingFile ''main.log''],
        fromCount = 1, remainingFiles = - 1\<rparr>"
proof -
  have "processFile example_config example_world ''main.log'' initial_state =
     Returned (readLoop example_config ''main.log'' \<lparr>pending = example_log, ending = EOF\<rparr>
       (emit (ReadingFile ''main.log'' 0) initial_state))"
    by (simp add: processFile_def example_world_def file_reader_def filepath_Ext_def)
      (simp add: initial_state_def)
  then show ?thesis by (simp only: readLoop_example)
qed

theorem gzip_same_aggregation_witness:
  "\<exists>t t'. processFile example_config example_world ''main.log'' initial_state = Returned t \<and>
     processFile example_config example_world ''main.log.gz'' initial_state = Returned t' \<and>
     emails t = [runes ''al@test.com'' \<mapsto> [runes ''bo@site.org'' \<mapsto> True]] \<and>
     emails t' = emails t \<and> lineCount t' = lineCount t \<and> matchCount t' = matchCount t \<and>
     ignoreCount t' = ignoreCount t \<and> fromCount t' = fromCount t"
proof -
  have "os_Open example_world ''main.log'' = Some \<lparr>pending = example_log, ending = EOF\<rparr>"
    and "filepath_Ext ''main.log'' \<noteq> ''.gz''"
    and "os_Open example_world (''main.log'' @ ''.gz'') =
           Some \<lparr>pending = [0x1F, 0x8B, 0x08], ending = EOF\<rparr>"
    and "gzip_NewReader example_world \<lparr>pending = [0x1F, 0x8B, 0x08], ending = EOF\<rparr> =
           Some \<lparr>pending = example_log, ending = EOF\<rparr>"
    by (simp_all add: example_world_def filepath_Ext_def)
  from gzip_same_aggregation [OF this, of example_config initial_state] processFile_example
  show ?thesis by auto
qed

section \<open>Read errors\<close>

lemma readLoop_read_failure:
  "0x0A \<notin> set rest \<Longrightarrow>
     readLoop cfg fileName \<lparr>pending = rest, ending = ReadFailure\<rparr> s =
       emit (CouldNotReadFile fileName) (progress cfg s)"
  by (simp add: readLoop_end)

lemma processFiles_bad_gzip:
  assumes "filepath_Ext fileName = ''.gz''"
    and "gzip_NewReader w (file_reader (os_Open w fileName)) = None"
  shows "\<exists>t. processFiles cfg w (fileName # fileNames) s = Panicked t \<and>
           CouldNotReadGzippedFile fileName \<in> set (logged t)"
  using assms by (simp add: processFile_def Let_def progress_def emit_def)

lemma ReadBytes_ending: "ending (snd (snd (ReadBytes delim rd))) = ending rd"
  by (simp add: ReadBytes_def split: list.splits)

lemma ReadBytes_error: "fst (snd (ReadBytes delim rd)) = Some e \<Longrightarrow> e = ending rd"
  by (simp add: ReadBytes_def split: list.splits)

lemma main_readLoop_ending:
  assumes "main_readLoop email fileName rd c = Some c'"
  shows "ending rd = EOF"
proof (rule main_readLoop.raw_induct [where P = "\<lambda>_ _ rd _ _. ending rd = EOF", OF _ assms],
    goal_cases)
  case (1 loop email fileName rd c c')
  show ?case
  proof (cases "fst (snd (ReadBytes 0x0A rd)) = Some EOF")
    case True
    then show ?thesis by (auto dest: ReadBytes_error)
  next
    case False
    with 1(2) obtain c2 where "loop email fileName (snd (snd (ReadBytes 0x0A rd))) c2 = Some c'"
      by (simp add: Let_def)
    then have "ending (snd (snd (ReadBytes 0x0A rd))) = EOF" by (rule 1(1))
    then show ?thesis by (simp add: ReadBytes_ending)
  qed
qed

lemma main_readLoop_never_returns:
  "ending rd = ReadFailure \<Longrightarrow> main_readLoop email fileName rd c = None"
  using main_readLoop_ending [of email fileName rd c] by (cases "main_readLoop email fileName rd c") auto

text \<open>
  Claim C5. A read that fails in the middle of a file makes \<open>processFile\<close> log and
  return (\<open>readLoop_read_failure\<close>). A file named \<^verbatim>\<open>.gz\<close> that the decompressor rejects
  is different: the error is logged, the nil reader is used all the same, and the panic
  ends the run before the next file is opened. In \<^verbatim>\<open>main.go\<close> a read error is logged
  and the loop goes on reading the same file, so it never returns once reads keep
  failing.
\<close>

theorem read_failure_not_contained:
  "processFiles example_config example_world [''bad.gz'', ''main.log''] initial_state =
     Panicked (initial_state\<lparr>logged := [CouldNotReadGzippedFile ''bad.gz'', ReadingFile ''bad.gz'' 0]\<rparr>) \<and>
   main_readLoop (Match test_com) ''main.log'' \<lparr>pending = runes ''x'', ending = ReadFailure\<rparr>
     initial_counters = None"
proof -
  have "processFile example_config example_world ''bad.gz'' initial_state =
     Panicked (initial_state\<lparr>logged := [CouldNotReadGzippedFile ''bad.gz'', ReadingFile ''bad.gz'' 0]\<rparr>)"
    by (simp add: processFile_def example_world_def file_reader_def filepath_Ext_def Let_def
        progress_def emit_def runes_def)
      (simp add: initial_state_def)
  then show ?thesis by (simp add: main_readLoop_never_returns)
qed

end
